theory Spec2Isabelle
  imports Complex_Main "HOL-Library.Multiset"
begin

section \<open>Exceptions, the network and the event trace\<close>

text \<open>
  The three \<^verbatim>\<open>except\<close> clauses of the sources distinguish exceptions by class only, so
  an exception is modelled by the part of the class hierarchy it sits in, with its message:
  \<^item> \<open>ClientError\<close>: \<^verbatim>\<open>aiohttp.ClientError\<close> and its subclasses (what
    \<^verbatim>\<open>raise_for_status\<close> and a broken connection raise);
  \<^item> \<open>OtherException\<close>: any other subclass of \<^verbatim>\<open>Exception\<close> (a malformed URL,
    \<^verbatim>\<open>asyncio.TimeoutError\<close>, \<^verbatim>\<open>IndexError\<close>, ...);
  \<^item> \<open>BaseException\<close>: an exception outside the \<^verbatim>\<open>Exception\<close> hierarchy
    (\<^verbatim>\<open>asyncio.CancelledError\<close>, \<^verbatim>\<open>KeyboardInterrupt\<close>, \<^verbatim>\<open>SystemExit\<close>).
  A computation that may raise has a result of type \<open>exn + 'a\<close>, \<open>Inl\<close> being the raise.
\<close>

datatype exn = ClientError string | OtherException string | BaseException string

text \<open>\<^verbatim>\<open>except aiohttp.ClientError\<close> and \<^verbatim>\<open>except Exception\<close> as tests on the class.\<close>

fun is_ClientError :: "exn \<Rightarrow> bool" where
  "is_ClientError (ClientError msg) = True"
| "is_ClientError (OtherException msg) = False"
| "is_ClientError (BaseException msg) = False"

fun is_Exception :: "exn \<Rightarrow> bool" where
  "is_Exception (ClientError msg) = True"
| "is_Exception (OtherException msg) = True"
| "is_Exception (BaseException msg) = False"

text \<open>\<^verbatim>\<open>str(e)\<close>: the message.\<close>

fun str :: "exn \<Rightarrow> string" where
  "str (ClientError msg) = msg"
| "str (OtherException msg) = msg"
| "str (BaseException msg) = msg"

text \<open>
  What one task sees of the shared HTTP session: \<open>session url k\<close> is the outcome of the
  whole \<^verbatim>\<open>async with session.get(...)\<close> block (request, \<^verbatim>\<open>raise_for_status\<close>,
  \<^verbatim>\<open>response.text()\<close>) entered with \<^verbatim>\<open>retry_count = k\<close>: the body text, or the exception
  raised. The theorems quantify over every such behaviour.
\<close>

type_synonym session = "string \<Rightarrow> int \<Rightarrow> exn + string"

text \<open>
  The observable effects of a fetch, in program order: the request (URL, headers, timeout),
  the backoff sleep with its delay, and the log records (level and URL; the message text is
  left out).
\<close>

datatype event =
    Get string "(string \<times> string) list" nat
  | Launch
  | Sleep rat
  | LogError string
  | LogInfo string

text \<open>
  Projections of a trace: the number of attempts (an attempt of \<^verbatim>\<open>fetch_page\<close> is its
  request, an attempt of \<^verbatim>\<open>fetch_with_browser\<close> its browser launch), the delays slept, in
  order, and the headers of the requests, in order.
\<close>

fun is_attempt :: "event \<Rightarrow> bool" where
  "is_attempt (Get url headers timeout) = True"
| "is_attempt Launch = True"
| "is_attempt (Sleep d) = False"
| "is_attempt (LogError url) = False"
| "is_attempt (LogInfo url) = False"

definition attempts :: "event list \<Rightarrow> nat" where
  "attempts t = length (filter is_attempt t)"

fun delays :: "event list \<Rightarrow> rat list" where
  "delays [] = []"
| "delays (Sleep d # t) = d # delays t"
| "delays (Get url headers timeout # t) = delays t"
| "delays (Launch # t) = delays t"
| "delays (LogError url # t) = delays t"
| "delays (LogInfo url # t) = delays t"

fun request_headers :: "event list \<Rightarrow> (string \<times> string) list list" where
  "request_headers [] = []"
| "request_headers (Get url headers timeout # t) = headers # request_headers t"
| "request_headers (Launch # t) = request_headers t"
| "request_headers (Sleep d # t) = request_headers t"
| "request_headers (LogError url # t) = request_headers t"
| "request_headers (LogInfo url # t) = request_headers t"

text \<open>
  JSON values: what \<^verbatim>\<open>json.dumps\<close> serialises. A Python dict with string keys is an
  association list in insertion order.
\<close>

datatype json =
    JNull
  | JBool bool
  | JNumber int
  | JString string
  | JArray "json list"
  | JObject "(string \<times> json) list"

type_synonym pydict = "(string \<times> json) list"

section \<open>Sample 1: configuration and the user-agent pool\<close>

definition MAX_RETRIES :: int where
  "MAX_RETRIES = 3"

definition TIMEOUT :: nat where
  "TIMEOUT = 10"

definition USER_AGENTS :: "string list" where
  "USER_AGENTS =
    [''Mozilla/5.0 (Windows NT 10.0; Win64; x64) AppleWebKit/537.36 (KHTML, like Gecko) Chrome/91.0.4472.124 Safari/537.36'',
     ''Mozilla/5.0 (Macintosh; Intel Mac OS X 10_15_7) AppleWebKit/537.36 (KHTML, like Gecko) Chrome/91.0.4472.124 Safari/537.36'',
     ''Mozilla/5.0 (X11; Linux x86_64) AppleWebKit/537.36 (KHTML, like Gecko) Chrome/91.0.4472.124 Safari/537.36'',
     ''Mozilla/5.0 (Windows NT 10.0; Win64; x64; rv:89.0) Gecko/20100101 Firefox/89.0'',
     ''Mozilla/5.0 (Macintosh; Intel Mac OS X 10.15; rv:89.0) Gecko/20100101 Firefox/89.0'',
     ''Mozilla/5.0 (X11; Linux i686; rv:89.0) Gecko/20100101 Firefox/89.0'',
     ''Mozilla/5.0 (Macintosh; Intel Mac OS X 10_15_7) AppleWebKit/605.1.15 (KHTML, like Gecko) Version/14.1.1 Safari/605.1.15'',
     ''Mozilla/5.0 (iPhone; CPU iPhone OS 14_6 like Mac OS X) AppleWebKit/605.1.15 (KHTML, like Gecko) Version/14.0.3 Mobile/15E148 Safari/604.1'',
     ''Mozilla/5.0 (iPad; CPU OS 14_6 like Mac OS X) AppleWebKit/605.1.15 (KHTML, like Gecko) Version/14.0.3 Mobile/15E148 Safari/604.1'',
     ''Mozilla/5.0 (Linux; Android 11; SM-G998B Build/R16KP.210331.001; wv) AppleWebKit/537.36 (KHTML, like Gecko) Version/4.0 Chrome/91.0.4472.101 Mobile Safari/537.36'']"

text \<open>
  Python's \<^verbatim>\<open>xs[i]\<close>: a negative index counts from the end, an index out of range raises
  \<^verbatim>\<open>IndexError\<close>.
\<close>

definition py_index :: "'a list \<Rightarrow> int \<Rightarrow> exn + 'a" where
  "py_index xs i =
     (if 0 \<le> i \<and> i < int (length xs) then Inr (xs ! nat i)
      else if i < 0 \<and> - int (length xs) \<le> i then Inr (xs ! nat (int (length xs) + i))
      else Inl (OtherException ''IndexError''))"

text \<open>
  Python's \<^verbatim>\<open>a % b\<close> on ints: the result has the sign of \<open>b\<close> (as \<open>mod\<close> on \<open>int\<close>
  does), and \<open>b = 0\<close> raises \<^verbatim>\<open>ZeroDivisionError\<close>.
\<close>

definition py_mod :: "int \<Rightarrow> int \<Rightarrow> exn + int" where
  "py_mod a b = (if b = 0 then Inl (OtherException ''ZeroDivisionError'') else Inr (a mod b))"

text \<open>
  \<^verbatim>\<open>USER_AGENTS[retry_count % len(USER_AGENTS)]\<close>, the first statement of Sample 1's
  \<^verbatim>\<open>fetch_page\<close>.
\<close>

definition user_agent_for :: "int \<Rightarrow> exn + string" where
  "user_agent_for retry_count =
     (case py_mod retry_count (int (length USER_AGENTS)) of
        Inl e \<Rightarrow> Inl e
      | Inr i \<Rightarrow> py_index USER_AGENTS i)"

text \<open>
  \<^verbatim>\<open>2 ** retry_count\<close>, the argument of \<^verbatim>\<open>asyncio.sleep\<close>: an exact power of two. (For a
  negative exponent Python answers with the float of this value.)
\<close>

definition backoff :: "int \<Rightarrow> rat" where
  "backoff retry_count =
     (if 0 \<le> retry_count then 2 ^ nat retry_count else 1 / 2 ^ nat (- retry_count))"

section \<open>Sample 1: \<^verbatim>\<open>fetch_page\<close>\<close>

text \<open>
  The user agent is chosen before the \<^verbatim>\<open>try\<close>, so an exception there is not caught. Inside
  the \<^verbatim>\<open>try\<close>, \<^verbatim>\<open>aiohttp.ClientError\<close> is retried after a sleep while
  \<^verbatim>\<open>retry_count < MAX_RETRIES\<close>, any other \<^verbatim>\<open>Exception\<close> gives \<^verbatim>\<open>None\<close> at once, and
  an exception that is not an \<^verbatim>\<open>Exception\<close> matches neither clause and propagates. The
  result is paired with the trace of effects.
\<close>

function fetch_page :: "session \<Rightarrow> string \<Rightarrow> int \<Rightarrow> (exn + string option) \<times> event list" where
  "fetch_page session url retry_count =
     (case user_agent_for retry_count of
        Inl e \<Rightarrow> (Inl e, [])
      | Inr user_agent \<Rightarrow>
          (let headers = [(''User-Agent'', user_agent)];
               request = Get url headers TIMEOUT
           in case session url retry_count of
                Inr text \<Rightarrow> (Inr (Some text), [request])
              | Inl e \<Rightarrow>
                  if is_ClientError e then
                    if retry_count < MAX_RETRIES then
                      (case fetch_page session url (retry_count + 1) of
                         (r, t) \<Rightarrow>
                           (r, [request, LogError url, Sleep (backoff retry_count), LogInfo url] @ t))
                    else (Inr None, [request, LogError url, LogError url])
                  else if is_Exception e then (Inr None, [request, LogError url])
                  else (Inl e, [request])))"
  by pat_completeness auto
termination
  by (relation "measure (\<lambda>(session, url, retry_count). nat (MAX_RETRIES - retry_count))") auto

section \<open>Sample 1: extraction, \<^verbatim>\<open>process_url\<close> and \<^verbatim>\<open>main\<close>\<close>

text \<open>
  The HTML parser is a collaborator: \<open>parser html\<close> is the outcome of
  \<^verbatim>\<open>BeautifulSoup(html, 'lxml')\<close> and of the two \<^verbatim>\<open>find\<close> look-ups of
  \<^verbatim>\<open>extract_data\<close>: the exception raised, or the stripped text of the \<^verbatim>\<open>h1\<close> of class
  \<^verbatim>\<open>DUwDvf\<close> and of the \<^verbatim>\<open>div\<close> of class \<^verbatim>\<open>LrzXr\<close>, each \<open>None\<close> when the element is
  not found.
\<close>

type_synonym parser = "string \<Rightarrow> exn + (string option \<times> string option)"

definition extract_data :: "parser \<Rightarrow> string \<Rightarrow> string \<Rightarrow> exn + pydict option" where
  "extract_data parser html url =
     (case parser html of
        Inr (h1, dv) \<Rightarrow>
          (let name = (case h1 of Some text \<Rightarrow> text | None \<Rightarrow> ''N/A'');
               address = (case dv of Some text \<Rightarrow> text | None \<Rightarrow> ''N/A'');
               data = [(''name'', JString name), (''address'', JString address), (''url'', JString url)]
           in Inr (Some data))
      | Inl e \<Rightarrow> if is_Exception e then Inr None else Inl e)"

text \<open>
  \<^verbatim>\<open>process_url\<close> mutates the shared list \<^verbatim>\<open>results\<close>; the model takes the list and returns
  the new one, or the exception that escapes. There is no \<^verbatim>\<open>await\<close> between the return of
  \<^verbatim>\<open>fetch_page\<close> and the \<^verbatim>\<open>append\<close>, so the rest of the body runs without interleaving.
\<close>

definition process_url :: "session \<Rightarrow> parser \<Rightarrow> string \<Rightarrow> pydict list \<Rightarrow> exn + pydict list" where
  "process_url session parser url results =
     (case fst (fetch_page session url 0) of
        Inl e \<Rightarrow> Inl e
      | Inr None \<Rightarrow> Inr results
      | Inr (Some html) \<Rightarrow>
          if html \<noteq> [] then
            (case extract_data parser html url of
               Inl e \<Rightarrow> Inl e
             | Inr None \<Rightarrow> Inr results
             | Inr (Some data) \<Rightarrow> if data \<noteq> [] then Inr (results @ [data]) else Inr results)
          else Inr results)"

text \<open>
  \<^verbatim>\<open>asyncio.gather\<close> runs the tasks concurrently. The tasks of one \<^verbatim>\<open>main\<close> share the
  session; \<open>net i\<close> is what task \<open>i\<close> sees of it. \<open>order\<close> is the order in which the tasks
  finish, a list of task indices fixed by the timing of the network. With the default
  \<^verbatim>\<open>return_exceptions=False\<close>, the first exception a task raises is raised by
  \<^verbatim>\<open>await asyncio.gather(...)\<close>, and so by \<^verbatim>\<open>main\<close>.

  In Sample 1 the tasks append to \<^verbatim>\<open>results\<close> as they finish: \<open>run_tasks\<close> threads the
  list through the tasks in finishing order.
\<close>

fun run_tasks :: "('r \<Rightarrow> exn + 'r) list \<Rightarrow> nat list \<Rightarrow> 'r \<Rightarrow> exn + 'r" where
  "run_tasks tasks [] results = Inr results"
| "run_tasks tasks (i # order) results =
     (if i < length tasks then
        (case (tasks ! i) results of
           Inl e \<Rightarrow> Inl e
         | Inr results' \<Rightarrow> run_tasks tasks order results')
      else run_tasks tasks order results)"

definition main :: "(nat \<Rightarrow> session) \<Rightarrow> parser \<Rightarrow> nat list \<Rightarrow> string list \<Rightarrow> exn + pydict list" where
  "main net parser order urls =
     (let results = [];
          tasks = map (\<lambda>(i, url). process_url (net i) parser url) (enumerate 0 urls)
      in run_tasks tasks order results)"

text \<open>
  What one task of Sample 1 adds to the shared list, read off \<^verbatim>\<open>process_url\<close> run on the
  empty list: nothing when it raises or skips the \<^verbatim>\<open>append\<close>, its record otherwise.
\<close>

definition contribution :: "session \<Rightarrow> parser \<Rightarrow> string \<Rightarrow> pydict list" where
  "contribution session parser url =
     (case process_url session parser url [] of Inl e \<Rightarrow> [] | Inr results \<Rightarrow> results)"

section \<open>Sample 2 and the sample with a server: \<^verbatim>\<open>fetch_page\<close> and \<^verbatim>\<open>main\<close>\<close>

text \<open>
  The two samples define \<^verbatim>\<open>fetch_page\<close> and \<^verbatim>\<open>main\<close> with the same text. This
  \<^verbatim>\<open>fetch_page\<close> sends no headers; the retry logic is that of Sample 1.
\<close>

function fetch_page_s2 :: "session \<Rightarrow> string \<Rightarrow> int \<Rightarrow> (exn + string option) \<times> event list" where
  "fetch_page_s2 session url retry_count =
     (let request = Get url [] TIMEOUT
      in case session url retry_count of
           Inr text \<Rightarrow> (Inr (Some text), [request])
         | Inl e \<Rightarrow>
             if is_ClientError e then
               if retry_count < MAX_RETRIES then
                 (case fetch_page_s2 session url (retry_count + 1) of
                    (r, t) \<Rightarrow>
                      (r, [request, LogError url, Sleep (backoff retry_count), LogInfo url] @ t))
               else (Inr None, [request, LogError url, LogError url])
             else if is_Exception e then (Inr None, [request, LogError url])
             else (Inl e, [request]))"
  by pat_completeness auto
termination
  by (relation "measure (\<lambda>(session, url, retry_count). nat (MAX_RETRIES - retry_count))") auto

text \<open>
  \<^verbatim>\<open>results = await asyncio.gather(*tasks)\<close>: the list of the tasks' results, in the order
  of the tasks, unless a task raised. \<open>first_raised\<close> finds the exception of the first task,
  in finishing order, that raised; \<open>collect\<close> puts the results together (should \<open>order\<close>
  leave out a task that raised, its exception is still raised).
\<close>

fun first_raised :: "nat list \<Rightarrow> (exn + 'a) list \<Rightarrow> exn option" where
  "first_raised [] rs = None"
| "first_raised (i # order) rs =
     (if i < length rs then
        (case rs ! i of Inl e \<Rightarrow> Some e | Inr v \<Rightarrow> first_raised order rs)
      else first_raised order rs)"

fun collect :: "(exn + 'a) list \<Rightarrow> exn + 'a list" where
  "collect [] = Inr []"
| "collect (r # rs) =
     (case r of
        Inl e \<Rightarrow> Inl e
      | Inr v \<Rightarrow> (case collect rs of Inl e \<Rightarrow> Inl e | Inr vs \<Rightarrow> Inr (v # vs)))"

definition gather :: "nat list \<Rightarrow> (exn + 'a) list \<Rightarrow> exn + 'a list" where
  "gather order rs = (case first_raised order rs of Some e \<Rightarrow> Inl e | None \<Rightarrow> collect rs)"

definition main_s2 :: "(nat \<Rightarrow> session) \<Rightarrow> nat list \<Rightarrow> string list \<Rightarrow> exn + string option list" where
  "main_s2 net order urls =
     (let tasks = map (\<lambda>(i, url). fst (fetch_page_s2 (net i) url 0)) (enumerate 0 urls)
      in gather order tasks)"

section \<open>\<^verbatim>\<open>example.py\<close>: \<^verbatim>\<open>fetch_with_browser\<close> and \<^verbatim>\<open>main\<close>\<close>

text \<open>
  \<open>playwright url k\<close> is the outcome of the \<^verbatim>\<open>try\<close> block of \<^verbatim>\<open>fetch_with_browser\<close>
  entered with \<^verbatim>\<open>retry_count = k\<close> (launch, new page, \<^verbatim>\<open>goto\<close>, wait, content, parse,
  close): the exception raised, or \<^verbatim>\<open>soup.title\<close>, which is \<open>None\<close> when the page has no
  title element and otherwise holds the element's \<^verbatim>\<open>string\<close>, itself possibly
  \<^verbatim>\<open>None\<close>.
\<close>

type_synonym playwright = "string \<Rightarrow> int \<Rightarrow> exn + string option option"

function fetch_with_browser ::
  "playwright \<Rightarrow> string \<Rightarrow> int \<Rightarrow> int \<Rightarrow> (exn + pydict) \<times> event list" where
  "fetch_with_browser playwright url retry_count max_retries =
     (case playwright url retry_count of
        Inr soup_title \<Rightarrow>
          (let title = (case soup_title of
                          Some (Some text) \<Rightarrow> JString text
                        | Some None \<Rightarrow> JNull
                        | None \<Rightarrow> JString ''Titre introuvable'')
           in (Inr [(''url'', JString url), (''title'', title)], [Launch]))
      | Inl e \<Rightarrow>
          if is_Exception e then
            if retry_count < max_retries then
              (case fetch_with_browser playwright url (retry_count + 1) max_retries of
                 (r, t) \<Rightarrow> (r, [Launch, LogError url, Sleep (backoff retry_count), LogInfo url] @ t))
            else (Inr [(''url'', JString url), (''error'', JString (str e))], [Launch, LogError url])
          else (Inl e, [Launch]))"
  by pat_completeness auto
termination
  by (relation "measure (\<lambda>(playwright, url, retry_count, max_retries). nat (max_retries - retry_count))")
    auto

definition main_browser :: "(nat \<Rightarrow> playwright) \<Rightarrow> nat list \<Rightarrow> string list \<Rightarrow> exn + pydict list" where
  "main_browser net order urls =
     (let tasks = map (\<lambda>(i, url). fst (fetch_with_browser (net i) url 0 3)) (enumerate 0 urls)
      in gather order tasks)"

section \<open>The HTTP server of the sample with a server and of \<^verbatim>\<open>example.py\<close>\<close>

text \<open>
  What a handler does to the connection, in program order. \<^verbatim>\<open>json.dumps\<close> with the
  keyword arguments of the sample, followed by \<^verbatim>\<open>encode\<close>, is the parameter \<open>dumps\<close>;
  the inherited \<^verbatim>\<open>SimpleHTTPRequestHandler.do_GET\<close>, which serves files and knows nothing
  of the module's globals, is the parameter \<open>super_do_GET\<close>.
\<close>

datatype http_out =
    SendResponse nat
  | SendHeader string string
  | EndHeaders
  | Write string

text \<open>The module's global variable.\<close>

record globals =
  scraped_data :: "json list"

definition do_GET ::
  "(json \<Rightarrow> string) \<Rightarrow> (string \<Rightarrow> http_out list) \<Rightarrow> string \<Rightarrow> globals \<Rightarrow> http_out list \<times> globals" where
  "do_GET dumps super_do_GET path g =
     (if path = ''/'' then
        ([SendResponse 200,
          SendHeader ''Content-type'' ''application/json'',
          EndHeaders,
          Write (dumps (JObject [(''scraped_data'', JArray (scraped_data g))]))], g)
      else (super_do_GET path, g))"

text \<open>
  \<^verbatim>\<open>httpd.serve_forever()\<close> answers the requests as they come, one handler call each;
  \<open>paths\<close> are the paths of the GET requests received. \<^verbatim>\<open>run_server\<close> binds the global
  to its argument and serves.
\<close>

fun serve_forever ::
  "(json \<Rightarrow> string) \<Rightarrow> (string \<Rightarrow> http_out list) \<Rightarrow> string list \<Rightarrow> globals
     \<Rightarrow> http_out list list \<times> globals" where
  "serve_forever dumps super_do_GET [] g = ([], g)"
| "serve_forever dumps super_do_GET (path # paths) g =
     (case do_GET dumps super_do_GET path g of
        (out, g') \<Rightarrow>
          (case serve_forever dumps super_do_GET paths g' of
             (outs, g'') \<Rightarrow> (out # outs, g'')))"

definition run_server ::
  "(json \<Rightarrow> string) \<Rightarrow> (string \<Rightarrow> http_out list) \<Rightarrow> json list \<Rightarrow> string list \<Rightarrow> globals
     \<Rightarrow> http_out list list \<times> globals" where
  "run_server dumps super_do_GET data paths g =
     serve_forever dumps super_do_GET paths (g\<lparr>scraped_data := data\<rparr>)"

section \<open>Sample sessions, used to evaluate the model on concrete inputs\<close>

definition refusing :: session where
  "refusing url k = Inl (ClientError ''Cannot connect to host'')"

definition malformed :: session where
  "malformed url k = Inl (OtherException ''Invalid URL'')"


definition serving :: session where
  "serving url k = Inr ''<html><h1 class=DUwDvf>Cafe</h1></html>''"

definition crashing_browser :: playwright where
  "crashing_browser url k = Inl (OtherException ''Invalid URL'')"

definition found :: parser where
  "found html = Inr (Some ''Cafe'', Some ''1 Main St'')"


text \<open>Task 0 is refused, every other task is served.\<close>

definition mixed_net :: "nat \<Rightarrow> session" where
  "mixed_net i = (if i = 0 then refusing else serving)"

definition titled_browser :: playwright where
  "titled_browser url k = Inr (Some (Some ''Cafe''))"

text \<open>Browser 0 crashes, every other browser loads the page.\<close>

definition mixed_browsers :: "nat \<Rightarrow> playwright" where
  "mixed_browsers i = (if i = 0 then crashing_browser else titled_browser)"

text \<open>
  A serialiser in the layout of \<^verbatim>\<open>json.dumps\<close> with its default separators, for texts
  that need no escaping, and a file handler that finds no file.
\<close>

definition quoted :: "string \<Rightarrow> string" where
  "quoted s = [CHR 0x22] @ s @ [CHR 0x22]"

fun join :: "string \<Rightarrow> string list \<Rightarrow> string" where
  "join sep [] = []"
| "join sep [x] = x"
| "join sep (x # y # ys) = x @ sep @ join sep (y # ys)"

fun digits :: "nat \<Rightarrow> string" where
  "digits n = (if n < 10 then [char_of (48 + n)] else digits (n div 10) @ [char_of (48 + n mod 10)])"

fun plain_dumps :: "json \<Rightarrow> string" where
  "plain_dumps JNull = ''null''"
| "plain_dumps (JBool b) = (if b then ''true'' else ''false'')"
| "plain_dumps (JNumber n) = (if n < 0 then ''-'' @ digits (nat (- n)) else digits (nat n))"
| "plain_dumps (JString s) = quoted s"
| "plain_dumps (JArray xs) = ''['' @ join '', '' (map plain_dumps xs) @ '']''"
| "plain_dumps (JObject kvs) =
     ''{'' @ join '', '' (map (\<lambda>(k, v). quoted k @ '': '' @ plain_dumps v) kvs) @ ''}''"

definition no_files :: "string \<Rightarrow> http_out list" where
  "no_files path = [SendResponse 404]"

section \<open>Basic facts\<close>

declare fetch_page.simps [simp del] fetch_page_s2.simps [simp del]
  fetch_with_browser.simps [simp del]

text \<open>Induction along the retries: attempt \<open>k\<close> may call attempt \<open>k + 1\<close> only below the bound.\<close>

lemma retry_induct [case_names step]:
  fixes k m :: int
  assumes "\<And>k. (k < m \<Longrightarrow> P (k + 1)) \<Longrightarrow> P k"
  shows "P k"
proof (induction "nat (m - k)" arbitrary: k rule: less_induct)
  case less
  show ?case
  proof (rule assms)
    assume "k < m"
    then have "nat (m - (k + 1)) < nat (m - k)" by simp
    then show "P (k + 1)" by (rule less)
  qed
qed

lemma length_USER_AGENTS: "length USER_AGENTS = 10"
  by (simp add: USER_AGENTS_def)

lemma user_agent_for_eq: "user_agent_for k = Inr (USER_AGENTS ! nat (k mod 10))"
  by (simp add: user_agent_for_def py_mod_def py_index_def length_USER_AGENTS)

lemma attempts_append: "attempts (a @ b) = attempts a + attempts b"
  by (simp add: attempts_def)

lemma attempts_Cons: "attempts (ev # t) = (if is_attempt ev then 1 else 0) + attempts t"
  by (simp add: attempts_def)

lemma attempts_Nil: "attempts [] = 0"
  by (simp add: attempts_def)

lemmas attempts_simps = attempts_append attempts_Cons attempts_Nil

lemma delays_append: "delays (a @ b) = delays a @ delays b"
  by (induction a rule: delays.induct) simp_all

lemma request_headers_append:
  "request_headers (a @ b) = request_headers a @ request_headers b"
  by (induction a rule: request_headers.induct) simp_all

lemma sorted_pow2: "sorted (map (\<lambda>j. (2::rat) ^ j) [a ..< b])"
  by (induction b) (auto simp: sorted_append intro: power_increasing)

subsection \<open>One step of each fetch function\<close>

lemma fetch_page_unfold:
  "fetch_page session url k =
     (let request = Get url [(''User-Agent'', USER_AGENTS ! nat (k mod 10))] TIMEOUT
      in case session url k of
           Inr text \<Rightarrow> (Inr (Some text), [request])
         | Inl e \<Rightarrow>
             if is_ClientError e then
               if k < MAX_RETRIES then
                 (fst (fetch_page session url (k + 1)),
                  [request, LogError url, Sleep (backoff k), LogInfo url]
                    @ snd (fetch_page session url (k + 1)))
               else (Inr None, [request, LogError url, LogError url])
             else if is_Exception e then (Inr None, [request, LogError url])
             else (Inl e, [request]))"
  by (subst fetch_page.simps) (simp add: user_agent_for_eq Let_def split: sum.splits prod.splits)

lemma fetch_page_s2_unfold:
  "fetch_page_s2 session url k =
     (case session url k of
        Inr text \<Rightarrow> (Inr (Some text), [Get url [] TIMEOUT])
      | Inl e \<Rightarrow>
          if is_ClientError e then
            if k < MAX_RETRIES then
              (fst (fetch_page_s2 session url (k + 1)),
               [Get url [] TIMEOUT, LogError url, Sleep (backoff k), LogInfo url]
                 @ snd (fetch_page_s2 session url (k + 1)))
            else (Inr None, [Get url [] TIMEOUT, LogError url, LogError url])
          else if is_Exception e then (Inr None, [Get url [] TIMEOUT, LogError url])
          else (Inl e, [Get url [] TIMEOUT]))"
  by (subst fetch_page_s2.simps) (simp add: Let_def split: sum.splits prod.splits)

lemma fetch_with_browser_retry:
  assumes "playwright url k = Inl e" and "is_Exception e" and "k < m"
  shows "fetch_with_browser playwright url k m =
           (fst (fetch_with_browser playwright url (k + 1) m),
            [Launch, LogError url, Sleep (backoff k), LogInfo url]
              @ snd (fetch_with_browser playwright url (k + 1) m))"
  using assms by (subst fetch_with_browser.simps) (simp split: prod.splits)

lemma fetch_with_browser_last:
  assumes "playwright url k = Inl e" and "is_Exception e" and "\<not> k < m"
  shows "fetch_with_browser playwright url k m =
           (Inr [(''url'', JString url), (''error'', JString (str e))], [Launch, LogError url])"
  using assms by (subst fetch_with_browser.simps) simp

lemma fetch_with_browser_raise:
  assumes "playwright url k = Inl e" and "\<not> is_Exception e"
  shows "fetch_with_browser playwright url k m = (Inl e, [Launch])"
  using assms by (subst fetch_with_browser.simps) simp

lemma fetch_with_browser_loaded:
  assumes "playwright url k = Inr soup_title"
  shows "snd (fetch_with_browser playwright url k m) = [Launch]"
    and "\<exists>d. fst (fetch_with_browser playwright url k m) = Inr d"
  using assms by (subst fetch_with_browser.simps, simp add: Let_def)+

lemma fetch_with_browser_cases [case_names loaded retry last raise]:
  obtains soup_title where "playwright url k = Inr soup_title"
  | e where "playwright url k = Inl e" "is_Exception e" "k < m"
  | e where "playwright url k = Inl e" "is_Exception e" "\<not> k < m"
  | e where "playwright url k = Inl e" "\<not> is_Exception e"
  by (cases "playwright url k") auto

subsection \<open>Attempts\<close>

lemma fetch_page_attempts_ge: "1 \<le> attempts (snd (fetch_page session url k))"
  by (subst fetch_page_unfold) (simp add: Let_def attempts_simps split: sum.splits)

lemma fetch_page_s2_attempts_ge: "1 \<le> attempts (snd (fetch_page_s2 session url k))"
  by (subst fetch_page_s2_unfold) (simp add: attempts_simps split: sum.splits)

lemma fetch_with_browser_attempts_ge: "1 \<le> attempts (snd (fetch_with_browser playwright url k m))"
  by (cases rule: fetch_with_browser_cases [where playwright = playwright and url = url and k = k and m = m])
     (simp_all add: fetch_with_browser_retry fetch_with_browser_last fetch_with_browser_raise
        fetch_with_browser_loaded attempts_simps)

lemma fetch_page_attempts_le:
  "attempts (snd (fetch_page session url k)) \<le> nat (MAX_RETRIES - k) + 1"
proof (induction k rule: retry_induct [where m = MAX_RETRIES])
  case (step k)
  then show ?case
    by (subst fetch_page_unfold) (auto simp: Let_def attempts_simps split: sum.splits)
qed

lemma fetch_page_s2_attempts_le:
  "attempts (snd (fetch_page_s2 session url k)) \<le> nat (MAX_RETRIES - k) + 1"
proof (induction k rule: retry_induct [where m = MAX_RETRIES])
  case (step k)
  then show ?case
    by (subst fetch_page_s2_unfold) (auto simp: attempts_simps split: sum.splits)
qed

lemma fetch_page_all_fail:
  assumes "\<forall>j. \<exists>e. session url j = Inl e \<and> is_ClientError e"
  shows "fst (fetch_page session url k) = Inr None \<and>
         attempts (snd (fetch_page session url k)) = nat (MAX_RETRIES - k) + 1"
proof (induction k rule: retry_induct [where m = MAX_RETRIES])
  case (step k)
  from assms obtain e where e: "session url k = Inl e" "is_ClientError e" by blast
  show ?case
  proof (cases "k < MAX_RETRIES")
    case True
    with step e show ?thesis
      by (subst (1 2) fetch_page_unfold) (simp add: Let_def attempts_simps)
  next
    case False
    with e show ?thesis
      by (subst (1 2) fetch_page_unfold) (simp add: Let_def attempts_simps)
  qed
qed

lemma fetch_page_s2_all_fail:
  assumes "\<forall>j. \<exists>e. session url j = Inl e \<and> is_ClientError e"
  shows "fst (fetch_page_s2 session url k) = Inr None \<and>
         attempts (snd (fetch_page_s2 session url k)) = nat (MAX_RETRIES - k) + 1"
proof (induction k rule: retry_induct [where m = MAX_RETRIES])
  case (step k)
  from assms obtain e where e: "session url k = Inl e" "is_ClientError e" by blast
  show ?case
  proof (cases "k < MAX_RETRIES")
    case True
    with step e show ?thesis
      by (subst (1 2) fetch_page_s2_unfold) (simp add: attempts_simps)
  next
    case False
    with e show ?thesis
      by (subst (1 2) fetch_page_s2_unfold) (simp add: attempts_simps)
  qed
qed

subsection \<open>Delays and headers\<close>

lemma fetch_page_delays:
  "0 \<le> k \<Longrightarrow> delays (snd (fetch_page session url k)) =
     map (\<lambda>j. 2 ^ j) [nat k ..< nat k + (attempts (snd (fetch_page session url k)) - 1)]"
proof (induction k rule: retry_induct [where m = MAX_RETRIES])
  case (step k)
  obtain n where n: "attempts (snd (fetch_page session url (k + 1))) = Suc n"
    using fetch_page_attempts_ge [of session url "k + 1"]
    by (cases "attempts (snd (fetch_page session url (k + 1)))") auto
  have k1: "nat (k + 1) = Suc (nat k)" using step.prems by simp
  from step show ?case
    apply (subst (1 2) fetch_page_unfold)
    apply (auto simp: Let_def attempts_simps backoff_def split: sum.splits)
    apply (simp add: n k1 upt_conv_Cons)
    done
qed

lemma fetch_page_s2_delays:
  "0 \<le> k \<Longrightarrow> delays (snd (fetch_page_s2 session url k)) =
     map (\<lambda>j. 2 ^ j) [nat k ..< nat k + (attempts (snd (fetch_page_s2 session url k)) - 1)]"
proof (induction k rule: retry_induct [where m = MAX_RETRIES])
  case (step k)
  obtain n where n: "attempts (snd (fetch_page_s2 session url (k + 1))) = Suc n"
    using fetch_page_s2_attempts_ge [of session url "k + 1"]
    by (cases "attempts (snd (fetch_page_s2 session url (k + 1)))") auto
  have k1: "nat (k + 1) = Suc (nat k)" using step.prems by simp
  from step show ?case
    apply (subst (1 2) fetch_page_s2_unfold)
    apply (auto simp: attempts_simps backoff_def split: sum.splits)
    apply (simp add: n k1 upt_conv_Cons)
    done
qed

lemma fetch_with_browser_delays:
  "0 \<le> k \<Longrightarrow> delays (snd (fetch_with_browser playwright url k m)) =
     map (\<lambda>j. 2 ^ j)
       [nat k ..< nat k + (attempts (snd (fetch_with_browser playwright url k m)) - 1)]"
proof (induction k rule: retry_induct [where m = m])
  case (step k)
  show ?case
  proof (cases rule: fetch_with_browser_cases
      [where playwright = playwright and url = url and k = k and m = m])
    case (retry e)
    obtain n where n: "attempts (snd (fetch_with_browser playwright url (k + 1) m)) = Suc n"
      using fetch_with_browser_attempts_ge [of playwright url "k + 1" m]
      by (cases "attempts (snd (fetch_with_browser playwright url (k + 1) m))") auto
    have k1: "nat (k + 1) = Suc (nat k)" using step.prems by simp
    from retry step show ?thesis
      by (simp add: fetch_with_browser_retry attempts_simps delays_append backoff_def n k1
          upt_conv_Cons)
  qed (simp_all add: fetch_with_browser_last fetch_with_browser_raise fetch_with_browser_loaded
      attempts_simps)
qed

lemma upto_first: "[k .. k + 1 + int n] = k # [k + 1 .. k + 1 + int n]"
  by (rule upto_rec1) simp

lemma fetch_page_headers:
  "request_headers (snd (fetch_page session url k)) =
     map (\<lambda>j. [(''User-Agent'', USER_AGENTS ! nat (j mod 10))])
       [k .. k + int (attempts (snd (fetch_page session url k))) - 1]"
proof (induction k rule: retry_induct [where m = MAX_RETRIES])
  case (step k)
  let ?hdr = "\<lambda>j. [(''User-Agent'', USER_AGENTS ! nat (j mod 10))]"
  show ?case
  proof (cases "\<exists>e. session url k = Inl e \<and> is_ClientError e \<and> k < MAX_RETRIES")
    case True
    then obtain e where e: "session url k = Inl e" "is_ClientError e" "k < MAX_RETRIES"
      by blast
    obtain n where n: "attempts (snd (fetch_page session url (k + 1))) = Suc n"
      using fetch_page_attempts_ge [of session url "k + 1"]
      by (cases "attempts (snd (fetch_page session url (k + 1)))") auto
    have t: "snd (fetch_page session url k) =
               [Get url (?hdr k) TIMEOUT, LogError url, Sleep (backoff k), LogInfo url]
                 @ snd (fetch_page session url (k + 1))"
      using e by (subst fetch_page_unfold) (simp add: Let_def)
    have ih: "request_headers (snd (fetch_page session url (k + 1))) =
                map ?hdr [k + 1 .. k + 1 + int (attempts (snd (fetch_page session url (k + 1)))) - 1]"
      using step [OF e(3)] .
    have idx: "k + 1 + int (attempts (snd (fetch_page session url (k + 1)))) - 1 = k + 1 + int n"
      by (simp add: n)
    have "request_headers (snd (fetch_page session url k))
            = ?hdr k # request_headers (snd (fetch_page session url (k + 1)))"
      by (simp add: t)
    also have "\<dots> = ?hdr k # map ?hdr [k + 1 .. k + 1 + int n]"
      by (simp only: ih idx)
    also have "\<dots> = map ?hdr [k .. k + 1 + int n]"
      by (simp only: upto_first list.map)
    also have "k + 1 + int n = k + int (attempts (snd (fetch_page session url k))) - 1"
      by (simp add: t n attempts_simps)
    finally show ?thesis .
  next
    case False
    then show ?thesis
      by (subst (1 2) fetch_page_unfold) (auto simp: Let_def attempts_simps split: sum.splits)
  qed
qed

subsection \<open>What the fetch functions return when nothing escapes\<close>

lemma fetch_page_returns:
  assumes "\<forall>j e. session url j = Inl e \<longrightarrow> is_Exception e"
  shows "\<exists>body. fst (fetch_page session url k) = Inr body
          \<and> (\<forall>page. body = Some page \<longrightarrow> (\<exists>j\<ge>k. session url j = Inr page))"
proof (induction k rule: retry_induct [where m = MAX_RETRIES])
  case (step k)
  show ?case
  proof (cases "session url k")
    case (Inr page)
    then show ?thesis
      by (subst fetch_page_unfold) (auto simp: Let_def)
  next
    case (Inl e)
    with assms have exc: "is_Exception e" by blast
    show ?thesis
    proof (cases "is_ClientError e \<and> k < MAX_RETRIES")
      case True
      with step obtain body where
        body: "fst (fetch_page session url (k + 1)) = Inr body"
          "\<forall>page. body = Some page \<longrightarrow> (\<exists>j\<ge>k + 1. session url j = Inr page)"
        by blast
      have "\<forall>page. body = Some page \<longrightarrow> (\<exists>j\<ge>k. session url j = Inr page)"
      proof (intro allI impI)
        fix page assume "body = Some page"
        with body(2) obtain j where "k + 1 \<le> j" "session url j = Inr page" by blast
        then show "\<exists>j\<ge>k. session url j = Inr page" by (intro exI [of _ j]) simp
      qed
      with True Inl body(1) show ?thesis
        by (subst fetch_page_unfold) (simp add: Let_def)
    next
      case False
      with Inl exc show ?thesis
        by (subst fetch_page_unfold) (auto simp: Let_def)
    qed
  qed
qed

lemma fetch_page_s2_returns:
  assumes "\<forall>j e. session url j = Inl e \<longrightarrow> is_Exception e"
  shows "\<exists>body. fst (fetch_page_s2 session url k) = Inr body
          \<and> (\<forall>page. body = Some page \<longrightarrow> (\<exists>j\<ge>k. session url j = Inr page))"
proof (induction k rule: retry_induct [where m = MAX_RETRIES])
  case (step k)
  show ?case
  proof (cases "session url k")
    case (Inr page)
    then show ?thesis
      by (subst fetch_page_s2_unfold) auto
  next
    case (Inl e)
    with assms have exc: "is_Exception e" by blast
    show ?thesis
    proof (cases "is_ClientError e \<and> k < MAX_RETRIES")
      case True
      with step obtain body where
        body: "fst (fetch_page_s2 session url (k + 1)) = Inr body"
          "\<forall>page. body = Some page \<longrightarrow> (\<exists>j\<ge>k + 1. session url j = Inr page)"
        by blast
      have "\<forall>page. body = Some page \<longrightarrow> (\<exists>j\<ge>k. session url j = Inr page)"
      proof (intro allI impI)
        fix page assume "body = Some page"
        with body(2) obtain j where "k + 1 \<le> j" "session url j = Inr page" by blast
        then show "\<exists>j\<ge>k. session url j = Inr page" by (intro exI [of _ j]) simp
      qed
      with True Inl body(1) show ?thesis
        by (subst fetch_page_s2_unfold) simp
    next
      case False
      with Inl exc show ?thesis
        by (subst fetch_page_s2_unfold) auto
    qed
  qed
qed

lemma fetch_with_browser_returns:
  assumes "\<forall>j e. playwright url j = Inl e \<longrightarrow> is_Exception e"
  shows "\<exists>d. fst (fetch_with_browser playwright url k m) = Inr d"
proof (induction k rule: retry_induct [where m = m])
  case (step k)
  show ?case
  proof (cases rule: fetch_with_browser_cases
      [where playwright = playwright and url = url and k = k and m = m])
    case (loaded soup_title)
    then show ?thesis by (rule fetch_with_browser_loaded)
  next
    case (retry e)
    with step show ?thesis by (simp add: fetch_with_browser_retry)
  next
    case (last e)
    then show ?thesis by (simp add: fetch_with_browser_last)
  next
    case (raise e)
    with assms show ?thesis by blast
  qed
qed

subsection \<open>The tasks of Sample 1\<close>

lemma extract_data_returns:
  assumes "\<forall>html e. parser html = Inl e \<longrightarrow> is_Exception e"
  shows "\<exists>data. extract_data parser html url = Inr data"
  using assms by (auto simp: extract_data_def Let_def split: sum.splits prod.splits)

lemma process_url_results:
  "process_url session parser url results =
     (case process_url session parser url [] of
        Inl e \<Rightarrow> Inl e
      | Inr added \<Rightarrow> Inr (results @ added))"
  by (simp add: process_url_def split: sum.splits option.splits)

lemma process_url_contribution:
  "process_url session parser url results = Inr results' \<Longrightarrow>
     results' = results @ contribution session parser url"
  by (subst (asm) process_url_results) (simp add: contribution_def split: sum.splits)

lemma process_url_returns:
  assumes "\<forall>j e. session url j = Inl e \<longrightarrow> is_Exception e"
    and "\<forall>html e. parser html = Inl e \<longrightarrow> is_Exception e"
  shows "\<exists>results'. process_url session parser url results = Inr results'"
proof -
  obtain body where body: "fst (fetch_page session url 0) = Inr body"
    using assms(1) fetch_page_returns [of session url 0] by blast
  have "\<exists>data. extract_data parser html url = Inr data" for html
    using assms(2) by (rule extract_data_returns)
  then have "extract_data parser html url \<noteq> Inl e" for html e
    by (metis Inl_Inr_False)
  with body show ?thesis
    by (simp add: process_url_def split: sum.splits option.splits)
qed

lemma length_contribution: "length (contribution session parser url) \<le> 1"
  by (simp add: contribution_def process_url_def split: sum.splits option.splits)


lemma extract_data_nonempty:
  "extract_data parser html url = Inr (Some data) \<Longrightarrow> data \<noteq> []"
  by (auto simp: extract_data_def Let_def split: sum.splits prod.splits if_splits)

lemma contribution_eq:
  "contribution session parser url =
     (case fst (fetch_page session url 0) of
        Inl e \<Rightarrow> []
      | Inr None \<Rightarrow> []
      | Inr (Some html) \<Rightarrow>
          if html \<noteq> [] then
            (case extract_data parser html url of
               Inl e \<Rightarrow> []
             | Inr None \<Rightarrow> []
             | Inr (Some data) \<Rightarrow> [data])
          else [])"
  by (auto simp: contribution_def process_url_def dest: extract_data_nonempty
      split: sum.splits option.splits)

lemma contribution_member_iff:
  "d \<in> set (contribution session parser url) \<longleftrightarrow>
     (\<exists>html. fst (fetch_page session url 0) = Inr (Some html) \<and> html \<noteq> []
        \<and> extract_data parser html url = Inr (Some d))"
proof (cases "fst (fetch_page session url 0)")
  case (Inl e)
  then show ?thesis by (simp add: contribution_eq)
next
  case fetched: (Inr body)
  show ?thesis
  proof (cases body)
    case None
    with fetched show ?thesis by (simp add: contribution_eq)
  next
    case body: (Some html)
    show ?thesis
    proof (cases "extract_data parser html url")
      case raised: (Inl e)
      have "contribution session parser url = []"
        using fetched body raised by (simp add: contribution_eq)
      with fetched body raised show ?thesis by simp
    next
      case extracted: (Inr data)
      show ?thesis
      proof (cases data)
        case None
        have "contribution session parser url = []"
          using fetched body extracted None by (simp add: contribution_eq)
        with fetched body extracted None show ?thesis by simp
      next
        case (Some entry)
        have "contribution session parser url = (if html \<noteq> [] then [entry] else [])"
          using fetched body extracted Some by (simp add: contribution_eq)
        with fetched body extracted Some show ?thesis by auto
      qed
    qed
  qed
qed

lemma contribution_nonempty_iff:
  "contribution session parser url \<noteq> [] \<longleftrightarrow>
     (\<exists>html data. fst (fetch_page session url 0) = Inr (Some html) \<and> html \<noteq> []
        \<and> extract_data parser html url = Inr (Some data))"
proof -
  have "contribution session parser url \<noteq> [] \<longleftrightarrow>
          (\<exists>d. d \<in> set (contribution session parser url))"
    by (cases "contribution session parser url") auto
  then show ?thesis
    by (simp only: contribution_member_iff) blast
qed

lemma run_tasks_result:
  assumes "\<And>i rs rs'. i < length tasks \<Longrightarrow> (tasks ! i) rs = Inr rs' \<Longrightarrow> rs' = rs @ c i"
  shows "run_tasks tasks order rs = Inr rs' \<Longrightarrow>
           rs' = rs @ concat (map c (filter (\<lambda>i. i < length tasks) order))"
proof (induction order arbitrary: rs)
  case Nil
  then show ?case by simp
next
  case (Cons i order)
  show ?case
  proof (cases "i < length tasks")
    case True
    with Cons.prems obtain mid where mid: "(tasks ! i) rs = Inr mid"
      and rest: "run_tasks tasks order mid = Inr rs'"
      by (auto split: sum.splits)
    from assms [OF True mid] Cons.IH [OF rest] True show ?thesis by simp
  next
    case False
    with Cons show ?thesis by simp
  qed
qed

lemma run_tasks_returns:
  assumes "\<And>i rs. i < length tasks \<Longrightarrow> \<exists>rs'. (tasks ! i) rs = Inr rs'"
  shows "\<exists>rs'. run_tasks tasks order rs = Inr rs'"
proof (induction order arbitrary: rs)
  case Nil
  show ?case by simp
next
  case (Cons i order)
  show ?case
  proof (cases "i < length tasks")
    case True
    from assms [OF True] obtain mid where "(tasks ! i) rs = Inr mid" by blast
    with True Cons.IH [of mid] show ?thesis by simp
  next
    case False
    with Cons.IH [of rs] show ?thesis by simp
  qed
qed

lemma main_result:
  assumes "main net parser order urls = Inr rs"
  shows "rs = concat (map (\<lambda>i. contribution (net i) parser (urls ! i))
                (filter (\<lambda>i. i < length urls) order))"
proof -
  let ?tasks = "map (\<lambda>(i, url). process_url (net i) parser url) (enumerate 0 urls)"
  have "rs' = rs0 @ contribution (net i) parser (urls ! i)"
    if "i < length ?tasks" "(?tasks ! i) rs0 = Inr rs'" for i rs0 rs'
    using that by (simp add: nth_enumerate_eq process_url_contribution)
  then have "rs = [] @ concat (map (\<lambda>i. contribution (net i) parser (urls ! i))
                (filter (\<lambda>i. i < length ?tasks) order))"
  proof (rule run_tasks_result)
    show "run_tasks ?tasks order [] = Inr rs"
      using assms by (simp add: main_def Let_def)
  qed
  then show ?thesis by simp
qed

lemma main_returns:
  assumes "\<forall>i url j e. net i url j = Inl e \<longrightarrow> is_Exception e"
    and "\<forall>html e. parser html = Inl e \<longrightarrow> is_Exception e"
  shows "\<exists>rs. main net parser order urls = Inr rs"
proof -
  let ?tasks = "map (\<lambda>(i, url). process_url (net i) parser url) (enumerate 0 urls)"
  have "\<exists>rs'. (?tasks ! i) rs0 = Inr rs'" if "i < length ?tasks" for i rs0
  proof -
    have "\<forall>j e. net i (urls ! i) j = Inl e \<longrightarrow> is_Exception e"
      using assms(1) by blast
    then have "\<exists>rs'. process_url (net i) parser (urls ! i) rs0 = Inr rs'"
      using assms(2) by (rule process_url_returns)
    with that show ?thesis
      by (simp add: nth_enumerate_eq)
  qed
  then have "\<exists>rs. run_tasks ?tasks order [] = Inr rs"
    by (rule run_tasks_returns)
  then show ?thesis
    by (simp add: main_def Let_def)
qed

lemma length_concat_singletons:
  "\<forall>x\<in>set xs. length (c x) \<le> 1 \<Longrightarrow>
     length (concat (map c xs)) = length (filter (\<lambda>x. c x \<noteq> []) xs)"
proof (induction xs)
  case Nil
  show ?case by simp
next
  case (Cons x xs)
  then have "length (c x) = (if c x \<noteq> [] then 1 else 0)"
    by (cases "c x") auto
  with Cons show ?case by simp
qed

lemma length_filter_permutation:
  "mset xs = mset ys \<Longrightarrow> length (filter P xs) = length (filter P ys)"
proof -
  assume "mset xs = mset ys"
  then have "mset (filter P xs) = mset (filter P ys)" by simp
  then show ?thesis by (rule mset_eq_length)
qed

lemma filter_all_tasks:
  assumes "mset order = mset [0 ..< n]"
  shows "filter (\<lambda>i. i < n) order = order"
proof -
  from assms have "set order = set [0 ..< n]" by (rule mset_eq_setD)
  then show ?thesis by (auto intro: filter_True)
qed

subsection \<open>\<^verbatim>\<open>asyncio.gather\<close> as used by the other samples\<close>

lemma collect_map_Inr: "collect (map Inr vs) = Inr vs"
  by (induction vs) simp_all

lemma collect_eq_Inr: "collect rs = Inr vs \<longleftrightarrow> rs = map Inr vs"
proof
  show "collect rs = Inr vs \<Longrightarrow> rs = map Inr vs"
    by (induction rs arbitrary: vs) (auto split: sum.splits)
qed (simp add: collect_map_Inr)

lemma first_raised_map_Inr: "first_raised order (map Inr vs) = None"
  by (induction order) simp_all

lemma gather_eq_Inr: "gather order rs = Inr vs \<longleftrightarrow> rs = map Inr vs"
proof
  assume "gather order rs = Inr vs"
  then have "collect rs = Inr vs"
    by (simp add: gather_def split: option.splits)
  then show "rs = map Inr vs" by (simp add: collect_eq_Inr)
next
  assume "rs = map Inr vs"
  then show "gather order rs = Inr vs"
    by (simp add: gather_def first_raised_map_Inr collect_eq_Inr)
qed

lemma all_returned:
  "\<forall>r\<in>set rs. \<exists>v. r = Inr v \<Longrightarrow> \<exists>vs. rs = map Inr vs"
proof (induction rs)
  case Nil
  show ?case by simp
next
  case (Cons r rs)
  then obtain v vs where "r = Inr v" "rs = map Inr vs" by auto
  then have "r # rs = map Inr (v # vs)" by simp
  then show ?case by (rule exI)
qed

lemma gather_tasks_result:
  assumes "gather order (map (\<lambda>(i, url). f i url) (enumerate 0 urls)) = Inr vs"
  shows "length vs = length urls \<and> (\<forall>i<length urls. f i (urls ! i) = Inr (vs ! i))"
proof -
  from assms have eq: "map (\<lambda>(i, url). f i url) (enumerate 0 urls) = map Inr vs"
    by (simp add: gather_eq_Inr)
  then have len: "length vs = length urls"
    by (metis length_enumerate length_map)
  moreover have "f i (urls ! i) = Inr (vs ! i)" if "i < length urls" for i
  proof -
    have "f i (urls ! i) = map (\<lambda>(i, url). f i url) (enumerate 0 urls) ! i"
      using that by (simp add: nth_enumerate_eq)
    also have "\<dots> = Inr (vs ! i)"
      using that len by (simp add: eq)
    finally show ?thesis .
  qed
  ultimately show ?thesis by blast
qed

lemma gather_tasks_returns:
  assumes "\<And>i. i < length urls \<Longrightarrow> \<exists>v. f i (urls ! i) = Inr v"
  shows "\<exists>vs. gather order (map (\<lambda>(i, url). f i url) (enumerate 0 urls)) = Inr vs"
proof -
  let ?tasks = "map (\<lambda>(i, url). f i url) (enumerate 0 urls)"
  have "\<forall>r\<in>set ?tasks. \<exists>v. r = Inr v"
  proof
    fix r assume "r \<in> set ?tasks"
    then obtain i where "i < length ?tasks" "r = ?tasks ! i"
      by (metis in_set_conv_nth)
    with assms [of i] show "\<exists>v. r = Inr v"
      by (simp add: nth_enumerate_eq)
  qed
  then obtain vs where "?tasks = map Inr vs"
    using all_returned by blast
  then show ?thesis by (simp add: gather_eq_Inr)
qed

subsection \<open>The sample sessions, evaluated\<close>

lemma fetch_page_refusing: "fst (fetch_page refusing url 0) = Inr None"
  using fetch_page_all_fail [of refusing url 0] by (simp add: refusing_def)

lemma fetch_page_s2_refusing: "fst (fetch_page_s2 refusing url 0) = Inr None"
  using fetch_page_s2_all_fail [of refusing url 0] by (simp add: refusing_def)

lemma fetch_page_serving:
  "fst (fetch_page serving url 0) = Inr (Some ''<html><h1 class=DUwDvf>Cafe</h1></html>'')"
  by (subst fetch_page_unfold) (simp add: serving_def Let_def)

lemma fetch_page_s2_serving:
  "fst (fetch_page_s2 serving url 0) = Inr (Some ''<html><h1 class=DUwDvf>Cafe</h1></html>'')"
  by (subst fetch_page_s2_unfold) (simp add: serving_def)

lemma fetch_with_browser_titled:
  "fst (fetch_with_browser titled_browser url 0 3) =
     Inr [(''url'', JString url), (''title'', JString ''Cafe'')]"
  by (subst fetch_with_browser.simps) (simp add: titled_browser_def)

lemma fetch_with_browser_crashing:
  "fst (fetch_with_browser crashing_browser url 0 3) =
     Inr [(''url'', JString url), (''error'', JString ''Invalid URL'')]"
proof -
  have r: "fst (fetch_with_browser crashing_browser url k 3) =
             fst (fetch_with_browser crashing_browser url (k + 1) 3)" if "k < 3" for k
    using that
    by (subst fetch_with_browser_retry [where e = "OtherException ''Invalid URL''"])
       (simp_all add: crashing_browser_def)
  have "fst (fetch_with_browser crashing_browser url 3 3) =
          Inr [(''url'', JString url), (''error'', JString ''Invalid URL'')]"
    by (subst fetch_with_browser_last [where e = "OtherException ''Invalid URL''"])
       (simp_all add: crashing_browser_def)
  with r [of 0] r [of 1] r [of 2] show ?thesis by simp
qed

lemma mixed_net_Exception: "\<forall>i url k e. mixed_net i url k = Inl e \<longrightarrow> is_Exception e"
  by (auto simp: mixed_net_def refusing_def serving_def)

lemma mixed_browsers_Exception:
  "\<forall>i url k e. mixed_browsers i url k = Inl e \<longrightarrow> is_Exception e"
  by (auto simp: mixed_browsers_def crashing_browser_def titled_browser_def)

lemma found_Exception: "\<forall>html e. found html = Inl e \<longrightarrow> is_Exception e"
  by (simp add: found_def)

lemma upt_two: "[0 ..< length [a, b]] = [0, Suc 0]"
  by (simp add: upt_rec)

lemma main_s2_mixed:
  "main_s2 mixed_net [1, 0] [''http://a'', ''http://b''] =
     Inr [None, Some ''<html><h1 class=DUwDvf>Cafe</h1></html>'']"
  by (simp add: main_s2_def gather_eq_Inr mixed_net_def fetch_page_s2_refusing
      fetch_page_s2_serving)

lemma main_browser_mixed:
  "main_browser mixed_browsers [1, 0] [''http://a'', ''http://b''] =
     Inr [[(''url'', JString ''http://a''), (''error'', JString ''Invalid URL'')],
          [(''url'', JString ''http://b''), (''title'', JString ''Cafe'')]]"
  by (simp add: main_browser_def gather_eq_Inr mixed_browsers_def fetch_with_browser_crashing
      fetch_with_browser_titled)

subsection \<open>The server\<close>

lemma do_GET_globals: "snd (do_GET dumps super_do_GET path g) = g"
  by (simp add: do_GET_def)

lemma serve_forever_globals: "snd (serve_forever dumps super_do_GET paths g) = g"
  by (induction paths arbitrary: g) (simp_all add: case_prod_unfold do_GET_globals)

lemma serve_forever_outputs:
  "fst (serve_forever dumps super_do_GET paths g) =
     map (\<lambda>path. fst (do_GET dumps super_do_GET path g)) paths"
  by (induction paths arbitrary: g) (simp_all add: case_prod_unfold do_GET_globals)

section \<open>The size of the aggregate\<close>

text \<open>
  Claim C1, as stated, fails on the \<^verbatim>\<open>main\<close> of Sample 1, whose \<^verbatim>\<open>process_url\<close> appends
  a record only \<^verbatim>\<open>if html:\<close> and \<^verbatim>\<open>if data:\<close>. Of two URLs, the first refused at every
  attempt and the second served, the aggregate holds one entry.
\<close>

theorem main_keeps_no_entry_for_failed_target:
  "main mixed_net found [1, 0] [''http://a'', ''http://b''] =
     Inr [[(''name'', JString ''Cafe''), (''address'', JString ''1 Main St''),
           (''url'', JString ''http://b'')]]"
  by (simp add: main_def process_url_def mixed_net_def fetch_page_refusing fetch_page_serving
      extract_data_def found_def)

text \<open>
  Claim C1, amended. When no task propagates an exception (the errors of the fetches and of
  the extraction are of the \<^verbatim>\<open>Exception\<close> hierarchy), the \<^verbatim>\<open>main\<close> functions that return the
  result of \<^verbatim>\<open>asyncio.gather\<close> (Sample 2, the sample with a server, \<^verbatim>\<open>example.py\<close>) return
  exactly one entry per input URL, however many fetches fail. The \<^verbatim>\<open>main\<close> of Sample 1
  returns one entry for each target whose fetch gave a non-empty body and whose extraction
  gave a record, and no other entry: the aggregate has as many entries as there are such
  targets, hence at most one per input URL, its entries are exactly the records extracted
  for these targets, and a target whose fetch failed has no entry.
\<close>

theorem aggregate_size:
  assumes "\<forall>i url k e. net i url k = Inl e \<longrightarrow> is_Exception e"
    and "\<forall>html e. parser html = Inl e \<longrightarrow> is_Exception e"
    and "\<forall>i url k e. browsers i url k = Inl e \<longrightarrow> is_Exception e"
    and "mset order = mset [0 ..< length urls]"
  shows "(\<exists>rs. main_s2 net order urls = Inr rs \<and> length rs = length urls)
       \<and> (\<exists>ds. main_browser browsers order urls = Inr ds \<and> length ds = length urls)
       \<and> (\<exists>rs. main net parser order urls = Inr rs
            \<and> length rs =
                length (filter
                  (\<lambda>i. \<exists>html data. fst (fetch_page (net i) (urls ! i) 0) = Inr (Some html)
                     \<and> html \<noteq> [] \<and> extract_data parser html (urls ! i) = Inr (Some data))
                  [0 ..< length urls])
            \<and> length rs \<le> length urls
            \<and> (\<forall>d. d \<in> set rs \<longleftrightarrow>
                  (\<exists>i<length urls. \<exists>html.
                     fst (fetch_page (net i) (urls ! i) 0) = Inr (Some html)
                     \<and> html \<noteq> [] \<and> extract_data parser html (urls ! i) = Inr (Some d))))"
proof (intro conjI)
  have "\<exists>v. fst (fetch_page_s2 (net i) (urls ! i) 0) = Inr v" for i
    using assms(1) fetch_page_s2_returns [of "net i" "urls ! i" 0] by blast
  then obtain rs where rs: "main_s2 net order urls = Inr rs"
    unfolding main_s2_def Let_def
    using gather_tasks_returns [of urls "\<lambda>i url. fst (fetch_page_s2 (net i) url 0)" order]
    by blast
  then have "length rs = length urls"
    unfolding main_s2_def Let_def by (rule gather_tasks_result [THEN conjunct1])
  with rs show "\<exists>rs. main_s2 net order urls = Inr rs \<and> length rs = length urls"
    by blast
next
  have "\<exists>v. fst (fetch_with_browser (browsers i) (urls ! i) 0 3) = Inr v" for i
    using assms(3) fetch_with_browser_returns [of "browsers i" "urls ! i" 0 3] by blast
  then obtain ds where ds: "main_browser browsers order urls = Inr ds"
    unfolding main_browser_def Let_def
    using gather_tasks_returns
      [of urls "\<lambda>i url. fst (fetch_with_browser (browsers i) url 0 3)" order]
    by blast
  then have "length ds = length urls"
    unfolding main_browser_def Let_def by (rule gather_tasks_result [THEN conjunct1])
  with ds show "\<exists>ds. main_browser browsers order urls = Inr ds \<and> length ds = length urls"
    by blast
next
  let ?c = "\<lambda>i. contribution (net i) parser (urls ! i)"
  let ?delivers = "\<lambda>i. \<exists>html data. fst (fetch_page (net i) (urls ! i) 0) = Inr (Some html)
      \<and> html \<noteq> [] \<and> extract_data parser html (urls ! i) = Inr (Some data)"
  have nonempty: "(\<lambda>i. ?c i \<noteq> []) = ?delivers"
    by (rule ext) (rule contribution_nonempty_iff)
  have tasks: "set order = {0 ..< length urls}"
    using mset_eq_setD [OF assms(4)] by simp
  obtain rs where rs: "main net parser order urls = Inr rs"
    using main_returns [OF assms(1) assms(2)] by blast
  then have "rs = concat (map ?c (filter (\<lambda>i. i < length urls) order))"
    by (rule main_result)
  then have content: "rs = concat (map ?c order)"
    by (simp add: filter_all_tasks [OF assms(4)])
  moreover have "length (concat (map ?c order)) = length (filter (\<lambda>i. ?c i \<noteq> []) order)"
    by (rule length_concat_singletons) (rule ballI, rule length_contribution)
  ultimately have "length rs = length (filter (\<lambda>i. ?c i \<noteq> []) order)"
    by simp
  also have "\<dots> = length (filter (\<lambda>i. ?c i \<noteq> []) [0 ..< length urls])"
    using assms(4) by (rule length_filter_permutation)
  finally have count: "length rs = length (filter ?delivers [0 ..< length urls])"
    by (simp only: nonempty)
  have bound: "length rs \<le> length urls"
    using length_filter_le [of ?delivers "[0 ..< length urls]"] count by simp
  have members: "d \<in> set rs \<longleftrightarrow>
      (\<exists>i<length urls. \<exists>html. fst (fetch_page (net i) (urls ! i) 0) = Inr (Some html)
         \<and> html \<noteq> [] \<and> extract_data parser html (urls ! i) = Inr (Some d))" for d
  proof -
    have "d \<in> set rs \<longleftrightarrow> (\<exists>i\<in>set order. d \<in> set (?c i))"
      by (auto simp: content)
    also have "\<dots> \<longleftrightarrow> (\<exists>i<length urls. d \<in> set (?c i))"
      by (auto simp: tasks)
    finally show ?thesis
      by (simp only: contribution_member_iff)
  qed
  from rs count bound members
  show "\<exists>rs. main net parser order urls = Inr rs
      \<and> length rs = length (filter ?delivers [0 ..< length urls])
      \<and> length rs \<le> length urls
      \<and> (\<forall>d. d \<in> set rs \<longleftrightarrow>
            (\<exists>i<length urls. \<exists>html. fst (fetch_page (net i) (urls ! i) 0) = Inr (Some html)
               \<and> html \<noteq> [] \<and> extract_data parser html (urls ! i) = Inr (Some d)))"
    by blast
qed

theorem aggregate_size_witness:
  "(\<exists>rs. main_s2 mixed_net [1, 0] [''http://a'', ''http://b''] = Inr rs
         \<and> length rs = length [''http://a'', ''http://b''])
   \<and> (\<exists>ds. main_browser mixed_browsers [1, 0] [''http://a'', ''http://b''] = Inr ds
         \<and> length ds = length [''http://a'', ''http://b''])
   \<and> (\<exists>rs. main mixed_net found [1, 0] [''http://a'', ''http://b''] = Inr rs
         \<and> length rs =
             length (filter
               (\<lambda>i. \<exists>html data.
                  fst (fetch_page (mixed_net i) ([''http://a'', ''http://b''] ! i) 0) =
                    Inr (Some html)
                  \<and> html \<noteq> []
                  \<and> extract_data found html ([''http://a'', ''http://b''] ! i) = Inr (Some data))
               [0 ..< length [''http://a'', ''http://b'']])
         \<and> length rs \<le> length [''http://a'', ''http://b''])"
proof -
  have order: "mset [1, 0] = mset [0 ..< length [''http://a'', ''http://b'']]"
    by (simp add: upt_two)
  show ?thesis
    using aggregate_size
      [OF mixed_net_Exception found_Exception mixed_browsers_Exception order]
    by blast
qed

section \<open>The retry bound\<close>

text \<open>
  Claim C2. When every attempt on a target fails with a retriable error
  (\<^verbatim>\<open>aiohttp.ClientError\<close>), \<^verbatim>\<open>fetch_page\<close>, called as its callers call it (with
  \<^verbatim>\<open>retry_count = 0\<close>), makes exactly \<^verbatim>\<open>MAX_RETRIES + 1\<close> attempts and returns
  \<^verbatim>\<open>None\<close>; whatever the session does, it never makes more than \<^verbatim>\<open>MAX_RETRIES + 1\<close>
  attempts. This holds for the \<^verbatim>\<open>fetch_page\<close> of Sample 1 and for that of the two other
  samples. The recursion terminates: both functions are total, by the termination proofs
  of their definitions, whose measure is \<^verbatim>\<open>MAX_RETRIES - retry_count\<close>.
\<close>

theorem fetch_page_exhausts_after_max_retries:
  assumes "\<forall>k. \<exists>e. session url k = Inl e \<and> is_ClientError e"
  shows "fst (fetch_page session url 0) = Inr None
       \<and> attempts (snd (fetch_page session url 0)) = nat MAX_RETRIES + 1
       \<and> fst (fetch_page_s2 session url 0) = Inr None
       \<and> attempts (snd (fetch_page_s2 session url 0)) = nat MAX_RETRIES + 1
       \<and> (\<forall>any_session any_url.
            attempts (snd (fetch_page any_session any_url 0)) \<le> nat MAX_RETRIES + 1
          \<and> attempts (snd (fetch_page_s2 any_session any_url 0)) \<le> nat MAX_RETRIES + 1)"
proof -
  have "attempts (snd (fetch_page s u 0)) \<le> nat MAX_RETRIES + 1" for s u
    using fetch_page_attempts_le [of s u 0] by simp
  moreover have "attempts (snd (fetch_page_s2 s u 0)) \<le> nat MAX_RETRIES + 1" for s u
    using fetch_page_s2_attempts_le [of s u 0] by simp
  ultimately show ?thesis
    using assms fetch_page_all_fail [of session url 0] fetch_page_s2_all_fail [of session url 0]
    by simp
qed

theorem fetch_page_exhausts_after_max_retries_witness:
  "fst (fetch_page refusing ''http://a'' 0) = Inr None
   \<and> attempts (snd (fetch_page refusing ''http://a'' 0)) = 4
   \<and> fst (fetch_page_s2 refusing ''http://a'' 0) = Inr None
   \<and> attempts (snd (fetch_page_s2 refusing ''http://a'' 0)) = 4"
proof -
  have h: "\<forall>k. \<exists>e. refusing ''http://a'' k = Inl e \<and> is_ClientError e"
    by (simp add: refusing_def)
  show ?thesis
    using h fetch_page_exhausts_after_max_retries [of refusing "''http://a''"]
    by (simp add: MAX_RETRIES_def)
qed

section \<open>Unexpected errors\<close>

text \<open>
  Claim C3, as stated, fails on \<^verbatim>\<open>fetch_with_browser\<close>, one of the two places it is drawn
  from: its single clause \<^verbatim>\<open>except Exception\<close> retries every error. A browser whose every
  attempt raises an unexpected error (here an invalid URL, not a transport error) is
  attempted \<^verbatim>\<open>max_retries + 1 = 4\<close> times, with three backoff sleeps in between.
\<close>

theorem fetch_with_browser_retries_unexpected_error:
  "crashing_browser ''http://a'' 0 = Inl (OtherException ''Invalid URL'')
   \<and> \<not> is_ClientError (OtherException ''Invalid URL'')
   \<and> attempts (snd (fetch_with_browser crashing_browser ''http://a'' 0 3)) = 4
   \<and> delays (snd (fetch_with_browser crashing_browser ''http://a'' 0 3)) = [1, 2, 4]"
proof -
  have r: "fetch_with_browser crashing_browser ''http://a'' k 3 =
             (fst (fetch_with_browser crashing_browser ''http://a'' (k + 1) 3),
              [Launch, LogError ''http://a'', Sleep (backoff k), LogInfo ''http://a'']
                @ snd (fetch_with_browser crashing_browser ''http://a'' (k + 1) 3))"
    if "k < 3" for k
    using that
    by (intro fetch_with_browser_retry [where e = "OtherException ''Invalid URL''"])
       (simp_all add: crashing_browser_def)
  have l: "snd (fetch_with_browser crashing_browser ''http://a'' 3 3) =
             [Launch, LogError ''http://a'']"
    by (subst fetch_with_browser_last [where e = "OtherException ''Invalid URL''"])
       (simp_all add: crashing_browser_def)
  have "snd (fetch_with_browser crashing_browser ''http://a'' 0 3) =
          [Launch, LogError ''http://a'', Sleep (backoff 0), LogInfo ''http://a'',
           Launch, LogError ''http://a'', Sleep (backoff 1), LogInfo ''http://a'',
           Launch, LogError ''http://a'', Sleep (backoff 2), LogInfo ''http://a'',
           Launch, LogError ''http://a'']"
    using r [of 0] r [of 1] r [of 2] l by simp
  then show ?thesis
    by (simp add: attempts_simps backoff_def crashing_browser_def)
qed

text \<open>
  Claim C3, amended. In \<^verbatim>\<open>fetch_page\<close> (all samples), an attempt that fails with an
  \<^verbatim>\<open>Exception\<close> other than \<^verbatim>\<open>aiohttp.ClientError\<close> ends the call at once: the call
  makes that one request, sleeps for no backoff, does not retry and returns \<^verbatim>\<open>None\<close>.
  \<^verbatim>\<open>fetch_with_browser\<close> has no such class of errors: after any \<^verbatim>\<open>Exception\<close>, below
  \<^verbatim>\<open>max_retries\<close>, it sleeps for the backoff delay and goes on with the next attempt.
\<close>

theorem unexpected_error_ends_fetch_page:
  "(session url k = Inl e \<and> is_Exception e \<and> \<not> is_ClientError e \<longrightarrow>
      fetch_page_s2 session url k = (Inr None, [Get url [] TIMEOUT, LogError url])
    \<and> fst (fetch_page session url k) = Inr None
    \<and> attempts (snd (fetch_page session url k)) = 1
    \<and> delays (snd (fetch_page session url k)) = [])
   \<and> (playwright url k = Inl e \<and> is_Exception e \<and> k < max_retries \<longrightarrow>
        snd (fetch_with_browser playwright url k max_retries) =
          [Launch, LogError url, Sleep (backoff k), LogInfo url]
            @ snd (fetch_with_browser playwright url (k + 1) max_retries))"
proof (intro conjI impI)
  assume "playwright url k = Inl e \<and> is_Exception e \<and> k < max_retries"
  then show "snd (fetch_with_browser playwright url k max_retries) =
      [Launch, LogError url, Sleep (backoff k), LogInfo url]
        @ snd (fetch_with_browser playwright url (k + 1) max_retries)"
    by (simp add: fetch_with_browser_retry)
next
  assume a: "session url k = Inl e \<and> is_Exception e \<and> \<not> is_ClientError e"
  then show "fetch_page_s2 session url k = (Inr None, [Get url [] TIMEOUT, LogError url])"
    by (subst fetch_page_s2_unfold) simp
  from a have "fetch_page session url k =
      (Inr None, [Get url [(''User-Agent'', USER_AGENTS ! nat (k mod 10))] TIMEOUT, LogError url])"
    by (subst fetch_page_unfold) (simp add: Let_def)
  then show "fst (fetch_page session url k) = Inr None"
    and "attempts (snd (fetch_page session url k)) = 1"
    and "delays (snd (fetch_page session url k)) = []"
    by (simp_all add: attempts_simps)
qed

theorem unexpected_error_ends_fetch_page_witness:
  "fetch_page_s2 malformed ''http://a'' 0 =
     (Inr None, [Get ''http://a'' [] TIMEOUT, LogError ''http://a''])
   \<and> fst (fetch_page malformed ''http://a'' 0) = Inr None
   \<and> attempts (snd (fetch_page malformed ''http://a'' 0)) = 1
   \<and> delays (snd (fetch_page malformed ''http://a'' 0)) = []
   \<and> snd (fetch_with_browser crashing_browser ''http://a'' 0 3) =
        [Launch, LogError ''http://a'', Sleep 1, LogInfo ''http://a'']
          @ snd (fetch_with_browser crashing_browser ''http://a'' 1 3)"
  using unexpected_error_ends_fetch_page
    [where session = malformed and url = "''http://a''" and k = 0
       and e = "OtherException ''Invalid URL''" and playwright = crashing_browser
       and max_retries = 3]
  by (simp add: malformed_def crashing_browser_def backoff_def)

section \<open>Exponential backoff\<close>

text \<open>
  Claim C4. In a fetch started at attempt 0, the delay slept between attempt \<open>k\<close> and
  attempt \<open>k + 1\<close> is \<open>base * 2 ^ k\<close> with \<open>base = 1\<close>: the delays of the run are
  \<open>1 * 2 ^ 0, 1 * 2 ^ 1, ...\<close>, one for each attempt but the last, and this sequence is
  non-decreasing. This holds for the \<^verbatim>\<open>fetch_page\<close> of every sample and for
  \<^verbatim>\<open>fetch_with_browser\<close>, whatever its \<^verbatim>\<open>max_retries\<close>.
\<close>

theorem backoff_delays_double:
  "delays (snd (fetch_page session url 0)) =
     map (\<lambda>k. 1 * 2 ^ k) [0 ..< attempts (snd (fetch_page session url 0)) - 1]
   \<and> sorted (delays (snd (fetch_page session url 0)))
   \<and> delays (snd (fetch_page_s2 session url 0)) =
     map (\<lambda>k. 1 * 2 ^ k) [0 ..< attempts (snd (fetch_page_s2 session url 0)) - 1]
   \<and> sorted (delays (snd (fetch_page_s2 session url 0)))
   \<and> delays (snd (fetch_with_browser playwright url 0 max_retries)) =
     map (\<lambda>k. 1 * 2 ^ k) [0 ..< attempts (snd (fetch_with_browser playwright url 0 max_retries)) - 1]
   \<and> sorted (delays (snd (fetch_with_browser playwright url 0 max_retries)))"
  using fetch_page_delays [of 0 session url] fetch_page_s2_delays [of 0 session url]
    fetch_with_browser_delays [of 0 playwright url max_retries]
  by (simp add: sorted_pow2)

section \<open>User-agent rotation\<close>

text \<open>
  Claim C5. The user agent of attempt \<open>k\<close> is \<^verbatim>\<open>USER_AGENTS[k % len(USER_AGENTS)]\<close>, for
  every integer \<open>k\<close>: the look-up never raises, it depends on \<open>k\<close> only, it has period
  \<^verbatim>\<open>len(USER_AGENTS)\<close>, and over one period it runs through the whole pool in order. In
  a run of \<^verbatim>\<open>fetch_page\<close> started at attempt \<open>k\<close>, the requests carry, in order, the user
  agents of attempts \<open>k, k + 1, ...\<close>, one per attempt.
\<close>

theorem user_agent_rotates:
  "user_agent_for k = Inr (USER_AGENTS ! nat (k mod int (length USER_AGENTS)))
   \<and> nat (k mod int (length USER_AGENTS)) < length USER_AGENTS
   \<and> user_agent_for (k + int (length USER_AGENTS)) = user_agent_for k
   \<and> map (\<lambda>n. user_agent_for (int n)) [0 ..< length USER_AGENTS] = map Inr USER_AGENTS
   \<and> request_headers (snd (fetch_page session url k)) =
       map (\<lambda>j. [(''User-Agent'', USER_AGENTS ! nat (j mod int (length USER_AGENTS)))])
         [k .. k + int (attempts (snd (fetch_page session url k))) - 1]"
proof -
  have "map (\<lambda>n. user_agent_for (int n)) [0 ..< length USER_AGENTS] = map Inr USER_AGENTS"
    by (rule nth_equalityI) (simp_all add: user_agent_for_eq length_USER_AGENTS)
  then show ?thesis
    by (simp add: user_agent_for_eq length_USER_AGENTS fetch_page_headers)
qed

section \<open>Failures of single targets\<close>




section \<open>The read endpoint\<close>

text \<open>
  Claim C7. A GET request for the route \<^verbatim>\<open>/\<close> is answered with status 200, the content
  type \<^verbatim>\<open>application/json\<close>, and one body: the serialisation of the object whose only key
  \<^verbatim>\<open>scraped_data\<close> holds the whole list bound to the global. Under \<^verbatim>\<open>run_server data\<close>
  this is the whole of \<open>data\<close>, for every request for \<^verbatim>\<open>/\<close> among the requests served, and
  every request gets its answer.
\<close>

theorem root_route_returns_whole_aggregate:
  "fst (do_GET dumps super_do_GET ''/'' g) =
     [SendResponse 200, SendHeader ''Content-type'' ''application/json'', EndHeaders,
      Write (dumps (JObject [(''scraped_data'', JArray (scraped_data g))]))]
   \<and> length (fst (run_server dumps super_do_GET data paths g)) = length paths
   \<and> (\<forall>i<length paths. paths ! i = ''/'' \<longrightarrow>
        fst (run_server dumps super_do_GET data paths g) ! i =
          [SendResponse 200, SendHeader ''Content-type'' ''application/json'', EndHeaders,
           Write (dumps (JObject [(''scraped_data'', JArray data)]))])"
  by (simp add: run_server_def serve_forever_outputs do_GET_def)

theorem root_route_returns_whole_aggregate_witness:
  "fst (run_server plain_dumps no_files [JString ''page'', JNull] [''/x'', ''/'']
          \<lparr>scraped_data = []\<rparr>) ! 1 =
     [SendResponse 200, SendHeader ''Content-type'' ''application/json'', EndHeaders,
      Write (''{'' @ quoted ''scraped_data'' @ '': ['' @ quoted ''page'' @ '', null]}'')]"
  using root_route_returns_whole_aggregate
    [where dumps = plain_dumps and super_do_GET = no_files
       and data = "[JString ''page'', JNull]" and paths = "[''/x'', ''/'']"
       and g = "\<lparr>scraped_data = []\<rparr>", THEN conjunct2, THEN conjunct2, rule_format, of 1]
  by simp

section \<open>The server and the aggregate\<close>

text \<open>
  Claim C8. The server does not change the aggregate it serves: a handler call leaves the
  global as it found it, so does any sequence of requests, and after \<^verbatim>\<open>run_server data\<close>
  has served any sequence of requests the global is still \<open>data\<close>.
\<close>

theorem server_leaves_aggregate_unchanged:
  "snd (do_GET dumps super_do_GET path g) = g
   \<and> snd (serve_forever dumps super_do_GET paths g) = g
   \<and> scraped_data (snd (run_server dumps super_do_GET data paths g)) = data"
  by (simp add: do_GET_globals serve_forever_globals run_server_def)

section \<open>What \<^verbatim>\<open>fetch_page\<close> lets through\<close>




section \<open>The order of the gathered results\<close>

text \<open>
  Claim C10. The \<^verbatim>\<open>main\<close> functions that return the result of \<^verbatim>\<open>asyncio.gather\<close> (Sample
  2 and the sample with a server, \<^verbatim>\<open>example.py\<close>) return, whenever they return, a list as
  long as the list of URLs whose element at index \<open>i\<close> is what the fetch of the URL at
  index \<open>i\<close> returned, whatever the order in which the fetches finish. They do return when
  the fetches raise nothing outside the \<^verbatim>\<open>Exception\<close> hierarchy.
\<close>

theorem gathered_results_keep_input_order:
  "(main_s2 net order urls = Inr rs \<longrightarrow>
      length rs = length urls
      \<and> (\<forall>i<length urls. fst (fetch_page_s2 (net i) (urls ! i) 0) = Inr (rs ! i)))
   \<and> (main_browser browsers order urls = Inr ds \<longrightarrow>
      length ds = length urls
      \<and> (\<forall>i<length urls. fst (fetch_with_browser (browsers i) (urls ! i) 0 3) = Inr (ds ! i)))
   \<and> ((\<forall>i url k e. net i url k = Inl e \<longrightarrow> is_Exception e) \<longrightarrow>
        (\<exists>rs. main_s2 net order urls = Inr rs))
   \<and> ((\<forall>i url k e. browsers i url k = Inl e \<longrightarrow> is_Exception e) \<longrightarrow>
        (\<exists>ds. main_browser browsers order urls = Inr ds))"
proof (intro conjI impI)
  assume "main_s2 net order urls = Inr rs"
  then have "length rs = length urls
      \<and> (\<forall>i<length urls. fst (fetch_page_s2 (net i) (urls ! i) 0) = Inr (rs ! i))"
    unfolding main_s2_def Let_def by (rule gather_tasks_result)
  then show "length rs = length urls"
    and "\<forall>i<length urls. fst (fetch_page_s2 (net i) (urls ! i) 0) = Inr (rs ! i)"
    by simp_all
next
  assume "main_browser browsers order urls = Inr ds"
  then have "length ds = length urls
      \<and> (\<forall>i<length urls. fst (fetch_with_browser (browsers i) (urls ! i) 0 3) = Inr (ds ! i))"
    unfolding main_browser_def Let_def by (rule gather_tasks_result)
  then show "length ds = length urls"
    and "\<forall>i<length urls. fst (fetch_with_browser (browsers i) (urls ! i) 0 3) = Inr (ds ! i)"
    by simp_all
next
  assume a: "\<forall>i url k e. net i url k = Inl e \<longrightarrow> is_Exception e"
  have "\<exists>v. fst (fetch_page_s2 (net i) (urls ! i) 0) = Inr v" for i
    using a fetch_page_s2_returns [of "net i" "urls ! i" 0] by blast
  then show "\<exists>rs. main_s2 net order urls = Inr rs"
    unfolding main_s2_def Let_def
    using gather_tasks_returns [of urls "\<lambda>i url. fst (fetch_page_s2 (net i) url 0)" order]
    by blast
next
  assume a: "\<forall>i url k e. browsers i url k = Inl e \<longrightarrow> is_Exception e"
  have "\<exists>v. fst (fetch_with_browser (browsers i) (urls ! i) 0 3) = Inr v" for i
    using a fetch_with_browser_returns [of "browsers i" "urls ! i" 0 3] by blast
  then show "\<exists>ds. main_browser browsers order urls = Inr ds"
    unfolding main_browser_def Let_def
    using gather_tasks_returns
      [of urls "\<lambda>i url. fst (fetch_with_browser (browsers i) url 0 3)" order]
    by blast
qed

theorem gathered_results_keep_input_order_witness:
  "fst (fetch_page_s2 (mixed_net 0) ''http://a'' 0) = Inr None
   \<and> fst (fetch_page_s2 (mixed_net 1) ''http://b'' 0) =
       Inr (Some ''<html><h1 class=DUwDvf>Cafe</h1></html>'')
   \<and> fst (fetch_with_browser (mixed_browsers 0) ''http://a'' 0 3) =
       Inr [(''url'', JString ''http://a''), (''error'', JString ''Invalid URL'')]
   \<and> fst (fetch_with_browser (mixed_browsers 1) ''http://b'' 0 3) =
       Inr [(''url'', JString ''http://b''), (''title'', JString ''Cafe'')]
   \<and> (\<exists>rs. main_s2 mixed_net [1, 0] [''http://a'', ''http://b''] = Inr rs)
   \<and> (\<exists>ds. main_browser mixed_browsers [1, 0] [''http://a'', ''http://b''] = Inr ds)"
proof -
  note order = gathered_results_keep_input_order
    [where net = mixed_net and browsers = mixed_browsers and order = "[1, 0]"
       and urls = "[''http://a'', ''http://b'']"
       and rs = "[None, Some ''<html><h1 class=DUwDvf>Cafe</h1></html>'']"
       and ds = "[[(''url'', JString ''http://a''), (''error'', JString ''Invalid URL'')],
                  [(''url'', JString ''http://b''), (''title'', JString ''Cafe'')]]"]
  have s2: "\<forall>i<length [''http://a'', ''http://b''].
      fst (fetch_page_s2 (mixed_net i) ([''http://a'', ''http://b''] ! i) 0) =
        Inr ([None, Some ''<html><h1 class=DUwDvf>Cafe</h1></html>''] ! i)"
    using order main_s2_mixed by blast
  have br: "\<forall>i<length [''http://a'', ''http://b''].
      fst (fetch_with_browser (mixed_browsers i) ([''http://a'', ''http://b''] ! i) 0 3) =
        Inr ([[(''url'', JString ''http://a''), (''error'', JString ''Invalid URL'')],
              [(''url'', JString ''http://b''), (''title'', JString ''Cafe'')]] ! i)"
    using order main_browser_mixed by blast
  have ret: "(\<exists>rs. main_s2 mixed_net [1, 0] [''http://a'', ''http://b''] = Inr rs)
      \<and> (\<exists>ds. main_browser mixed_browsers [1, 0] [''http://a'', ''http://b''] = Inr ds)"
    using order mixed_net_Exception mixed_browsers_Exception by blast
  from s2 [rule_format, of 0] s2 [rule_format, of 1] br [rule_format, of 0]
    br [rule_format, of 1] ret
  show ?thesis by simp
qed

end
